theory Spec2Isabelle
  imports Complex_Main "HOL-Library.Word"
begin

unbundle bit_operations_syntax

section \<open>JavaScript strings\<close>

text \<open>
  A JavaScript string is a sequence of UTF-16 code units. String constants of the
  source are written as Isabelle literals and converted with \<open>lit\<close>.
\<close>

type_synonym jsstring = "16 word list"

definition lit :: "string \<Rightarrow> jsstring" where
  "lit s = map of_char s"

definition dquote :: "16 word" where
  "dquote = 0x22"

section \<open>JSON.stringify on a string\<close>

text \<open>
  \<open>JSON.stringify\<close> is a builtin of the language; on a string it is the operation
  QuoteJSONString of ECMA-262: the seven characters of the escape table get their
  two-character escape, every other code unit below U+0020 and every unpaired surrogate
  is written as a \<open>\u\<close> escape with four lower-case hexadecimal digits, everything else
  is copied, and the result is wrapped in double quotes.
\<close>

definition hexdigit :: "16 word \<Rightarrow> 16 word" where
  "hexdigit d = (if d < 10 then 0x30 + d else 0x61 + (d - 10))"

definition UnicodeEscape :: "16 word \<Rightarrow> jsstring" where
  "UnicodeEscape c =
     [0x5C, 0x75,
      hexdigit (drop_bit 12 c AND 0xF), hexdigit (drop_bit 8 c AND 0xF),
      hexdigit (drop_bit 4 c AND 0xF), hexdigit (c AND 0xF)]"

definition isLeadingSurrogate :: "16 word \<Rightarrow> bool" where
  "isLeadingSurrogate c = (0xD800 \<le> c \<and> c \<le> 0xDBFF)"

definition isTrailingSurrogate :: "16 word \<Rightarrow> bool" where
  "isTrailingSurrogate c = (0xDC00 \<le> c \<and> c \<le> 0xDFFF)"

text \<open>The encoding of one code unit that is not part of a surrogate pair.\<close>

definition QuoteJSONUnit :: "16 word \<Rightarrow> jsstring" where
  "QuoteJSONUnit c =
     (if c = 0x08 then [0x5C, 0x62]
      else if c = 0x09 then [0x5C, 0x74]
      else if c = 0x0A then [0x5C, 0x6E]
      else if c = 0x0C then [0x5C, 0x66]
      else if c = 0x0D then [0x5C, 0x72]
      else if c = 0x22 then [0x5C, 0x22]
      else if c = 0x5C then [0x5C, 0x5C]
      else if c < 0x20 \<or> isLeadingSurrogate c \<or> isTrailingSurrogate c then UnicodeEscape c
      else [c])"

fun QuoteJSONBody :: "jsstring \<Rightarrow> jsstring" where
  "QuoteJSONBody [] = []"
| "QuoteJSONBody [c] = QuoteJSONUnit c"
| "QuoteJSONBody (c # d # cs) =
     (if isLeadingSurrogate c \<and> isTrailingSurrogate d then c # d # QuoteJSONBody cs
      else QuoteJSONUnit c @ QuoteJSONBody (d # cs))"

definition JSON_stringify :: "jsstring \<Rightarrow> jsstring" where
  "JSON_stringify s = dquote # QuoteJSONBody s @ [dquote]"

section \<open>The stream endpoint (src/main.js, app.get('/stream'))\<close>

text \<open>
  The \<open>content\<close> field of a chunk is a string or is undefined. The producer is the
  awaited call \<open>llm.stream(messages)\<close>: it rejects with an error, or it gives an
  asynchronous sequence, which yields chunks and then is exhausted or throws.
\<close>

datatype content = Undefined | Text jsstring

datatype error = Error jsstring

datatype chunk_stream = Done | Throw error | Chunk content chunk_stream

type_synonym producer = "error + chunk_stream"

text \<open>A sequence that yields the contents of a list and then goes on as \<open>rest\<close>.\<close>

fun yields :: "content list \<Rightarrow> chunk_stream \<Rightarrow> chunk_stream" where
  "yields [] rest = rest"
| "yields (c # cs) rest = Chunk c (yields cs rest)"

text \<open>
  What the handler does to the outside world, in the order it does it: calls on the
  response object and on the console.
\<close>

datatype effect =
    SetHeader jsstring jsstring
  | Write jsstring
  | End
  | ConsoleError jsstring error

definition sse_headers :: "effect list" where
  "sse_headers =
     [SetHeader (lit ''Content-Type'') (lit ''text/event-stream''),
      SetHeader (lit ''Cache-Control'') (lit ''no-cache''),
      SetHeader (lit ''Connection'') (lit ''keep-alive'')]"

text \<open>The template literal of line 40.\<close>

definition frame :: "jsstring \<Rightarrow> jsstring" where
  "frame s = lit ''data: '' @ JSON_stringify s @ lit ''\<newline>\<newline>''"

text \<open>
  The \<open>for await\<close> loop: the effects of the iterations, and whether the loop ran to
  the end of the sequence (\<open>Inr ()\<close>) or was left by the sequence's error.
  \<open>!content\<close> holds of undefined and of the empty string.
\<close>

fun drain :: "chunk_stream \<Rightarrow> effect list \<times> (error + unit)" where
  "drain Done = ([], Inr ())"
| "drain (Throw e) = ([], Inl e)"
| "drain (Chunk Undefined rest) = drain rest"
| "drain (Chunk (Text s) rest) =
     (if s = [] then drain rest
      else (case drain rest of (es, r) \<Rightarrow> (Write (frame s) # es, r)))"

text \<open>The body of the \<open>try\<close> block, lines 23 to 43.\<close>

fun try_block :: "producer \<Rightarrow> effect list \<times> (error + unit)" where
  "try_block (Inl e) = ([], Inl e)"
| "try_block (Inr st) =
     (case drain st of
        (es, Inr u) \<Rightarrow> (sse_headers @ es @ [End], Inr u)
      | (es, Inl e) \<Rightarrow> (sse_headers @ es, Inl e))"

definition diagnostic :: jsstring where
  "diagnostic = lit ''data: an error occurred while streaming response.''"

text \<open>The \<open>catch\<close> block, lines 45 to 47.\<close>

definition catch_block :: "error \<Rightarrow> effect list" where
  "catch_block e = [ConsoleError (lit ''streaming error:'') e, Write diagnostic, End]"

definition stream_handler :: "producer \<Rightarrow> effect list" where
  "stream_handler p =
     (case try_block p of
        (es, Inr u) \<Rightarrow> es
      | (es, Inl e) \<Rightarrow> es @ catch_block e)"

text \<open>The body writes of a run, in order.\<close>

fun writes :: "effect list \<Rightarrow> jsstring list" where
  "writes [] = []"
| "writes (Write s # es) = s # writes es"
| "writes (e # es) = writes es"

fun is_Write :: "effect \<Rightarrow> bool" where
  "is_Write (Write s) = True"
| "is_Write e = False"

text \<open>
  All three framing headers are set in the part of the run that comes before the first
  body write (the whole run when nothing is written).
\<close>

definition headers_before_body :: "effect list \<Rightarrow> bool" where
  "headers_before_body es =
     (set sse_headers \<subseteq> set (takeWhile (\<lambda>e. \<not> is_Write e) es))"

text \<open>The non-empty fragments among the contents a producer yields, in order.\<close>

fun fragments :: "content list \<Rightarrow> jsstring list" where
  "fragments [] = []"
| "fragments (Undefined # cs) = fragments cs"
| "fragments (Text s # cs) = (if s = [] then fragments cs else s # fragments cs)"

section \<open>The reference endpoint (src/main.js, app.get('/normal'))\<close>

text \<open>
  The awaited call \<open>llm.invoke(messages)\<close> rejects with an error or gives a response
  object, which has a \<open>content\<close> key or has none. The response of the server starts
  with Node's default status 200; the handler never calls \<open>res.status\<close>, and
  \<open>res.send\<close> records the value it is given.
\<close>

datatype message = WithContent content | WithoutContent

record response =
  statusCode :: nat
  sent :: "content option"

definition new_response :: response where
  "new_response = \<lparr>statusCode = 200, sent = None\<rparr>"

definition send :: "content \<Rightarrow> response \<Rightarrow> response" where
  "send v res = res\<lparr>sent := Some v\<rparr>"

text \<open>Line 63: \<open>"content" in response ? response.content : "No answer was generated."\<close>\<close>

definition answer :: "message \<Rightarrow> content" where
  "answer response =
     (case response of
        WithContent c \<Rightarrow> c
      | WithoutContent \<Rightarrow> Text (lit ''No answer was generated.''))"

text \<open>The handler gives the response and what it logged with \<open>console.error\<close>.\<close>

definition normal_handler :: "error + message \<Rightarrow> response \<times> (jsstring \<times> error) list" where
  "normal_handler p =
     (case p of
        Inr response \<Rightarrow> (send (answer response) new_response, [])
      | Inl e \<Rightarrow>
          (send (Text (lit ''An error occurred while generating the summary.'')) new_response,
           [(lit ''Error invoking LLM:'', e)]))"

section \<open>The browser client (public/chat.js)\<close>

subsection \<open>cleanText\<close>

text \<open>
  \<open>String.prototype.trim\<close> removes the code units of WhiteSpace and LineTerminator
  of ECMA-262 from both ends.
\<close>

definition isWhiteSpace :: "16 word \<Rightarrow> bool" where
  "isWhiteSpace c =
     (c = 0x09 \<or> c = 0x0A \<or> c = 0x0B \<or> c = 0x0C \<or> c = 0x0D \<or> c = 0x20 \<or> c = 0xA0
      \<or> c = 0x1680 \<or> (0x2000 \<le> c \<and> c \<le> 0x200A) \<or> c = 0x2028 \<or> c = 0x2029
      \<or> c = 0x202F \<or> c = 0x205F \<or> c = 0x3000 \<or> c = 0xFEFF)"

definition trim :: "jsstring \<Rightarrow> jsstring" where
  "trim s = rev (dropWhile isWhiteSpace (rev (dropWhile isWhiteSpace s)))"

text \<open>\<open>.replace(/^"/, '')\<close>: the pattern matches only at the start of the text.\<close>

fun replace_leading_quote :: "jsstring \<Rightarrow> jsstring" where
  "replace_leading_quote [] = []"
| "replace_leading_quote (c # cs) = (if c = dquote then cs else c # cs)"

text \<open>
  \<open>.replace(/""/g, '')\<close>: every match is removed, the matches being found from left
  to right, each search starting where the previous match ended.
\<close>

fun replace_double_quotes :: "jsstring \<Rightarrow> jsstring" where
  "replace_double_quotes [] = []"
| "replace_double_quotes [c] = [c]"
| "replace_double_quotes (c # d # cs) =
     (if c = dquote \<and> d = dquote then replace_double_quotes cs
      else c # replace_double_quotes (d # cs))"

text \<open>
  \<open>.replace(/"$/, '')\<close>: without the \<open>m\<close> flag \<open>$\<close> matches only at the end of the
  text, so the only possible match is a quote that is the last code unit.
\<close>

definition replace_trailing_quote :: "jsstring \<Rightarrow> jsstring" where
  "replace_trailing_quote s = (if s \<noteq> [] \<and> last s = dquote then butlast s else s)"

definition cleanText :: "jsstring \<Rightarrow> jsstring" where
  "cleanText text =
     trim (replace_trailing_quote (replace_double_quotes (replace_leading_quote text)))"

fun has_double_quotes :: "jsstring \<Rightarrow> bool" where
  "has_double_quotes [] = False"
| "has_double_quotes [c] = False"
| "has_double_quotes (c # d # cs) = ((c = dquote \<and> d = dquote) \<or> has_double_quotes (d # cs))"

definition starts_with_quote :: "jsstring \<Rightarrow> bool" where
  "starts_with_quote s = (s \<noteq> [] \<and> hd s = dquote)"

definition ends_with_quote :: "jsstring \<Rightarrow> bool" where
  "ends_with_quote s = (s \<noteq> [] \<and> last s = dquote)"

subsection \<open>Numbers\<close>

text \<open>
  A JavaScript number is an IEEE 754 double. \<open>performance.now()\<close> gives a finite
  double that is not negative, a count of milliseconds with a fraction. A finite double
  is the rational it stands for: an integer of at most 53 bits times a power of two
  that is at least \<open>2^-1074\<close>. The subtraction of two doubles is the exact difference
  rounded to the nearest double, a tie going to the even significand. Infinities and
  NaN are left out: the difference of two finite doubles that are not negative is a
  finite double again, as is proved below.
\<close>

fun bit_length :: "nat \<Rightarrow> nat" where
  "bit_length n = (if n = 0 then 0 else Suc (bit_length (n div 2)))"

declare bit_length.simps [simp del]

definition pow2 :: "int \<Rightarrow> rat" where
  "pow2 e = (if 0 \<le> e then 2 ^ nat e else 1 / 2 ^ nat (- e))"

text \<open>The exponent \<open>e\<close> with \<open>2^e \<le> |x| < 2^(e+1)\<close>, for \<open>x\<close> other than 0.\<close>

definition binade :: "rat \<Rightarrow> int" where
  "binade x =
     (let (p, q) = quotient_of \<bar>x\<bar>;
          d = int (bit_length (nat p)) - int (bit_length (nat q))
      in if pow2 d \<le> \<bar>x\<bar> then d else d - 1)"

definition round_half_even :: "rat \<Rightarrow> int" where
  "round_half_even y =
     (let n = \<lfloor>y\<rfloor>; f = y - of_int n
      in if f < 1 / 2 then n
         else if 1 / 2 < f then n + 1
         else if even n then n else n + 1)"

text \<open>
  The unit in the last place of the doubles around \<open>x\<close>: 52 binary places below the
  leading bit, and \<open>2^-1074\<close> throughout the subnormal range.
\<close>

definition ulp_exponent :: "rat \<Rightarrow> int" where
  "ulp_exponent x = max (binade x) (- 1022) - 52"

definition to_double :: "rat \<Rightarrow> rat" where
  "to_double x =
     (if x = 0 then 0
      else of_int (round_half_even (x / pow2 (ulp_exponent x))) * pow2 (ulp_exponent x))"

definition is_double :: "rat \<Rightarrow> bool" where
  "is_double x = (to_double x = x \<and> \<bar>x\<bar> < pow2 1024)"

text \<open>The operator \<open>-\<close> on two numbers.\<close>

definition double_minus :: "rat \<Rightarrow> rat \<Rightarrow> rat" where
  "double_minus a b = to_double (a - b)"

text \<open>\<open>Math.floor\<close> of a finite double is exact: the integer below it is a double.\<close>

definition Math_floor :: "rat \<Rightarrow> int" where
  "Math_floor x = \<lfloor>x\<rfloor>"

subsection \<open>The stream form\<close>

text \<open>
  The state the stream form's handlers work on: the two page elements, and the two
  variables of the submit handler's closure. The text of the elapsed-time element is
  empty or is the sentence built around \<open>${elapsed}ms\<close>; only the number is kept.
\<close>

datatype elapsed_text = Blank | TimeTaken int

record client =
  container :: jsstring
  elapsedTimeText :: elapsed_text
  timeStart :: rat
  accumulatedText :: jsstring

definition page_load :: client where
  "page_load = \<lparr>container = [], elapsedTimeText = Blank, timeStart = 0, accumulatedText = []\<rparr>"

definition showLoading :: "bool \<Rightarrow> client \<Rightarrow> client" where
  \<open>showLoading loading c =
     (let c1 = c\<lparr>container := []\<rparr>
      in if loading
         then c1\<lparr>container :=
                lit ''<p class="text-sm animate-bounce">Generating response........''\<rparr>
         else c1)\<close>

definition cleanElapsedTime :: "client \<Rightarrow> client" where
  "cleanElapsedTime c = c\<lparr>elapsedTimeText := Blank\<rparr>"

definition displayElapsedTime :: "rat \<Rightarrow> rat \<Rightarrow> client \<Rightarrow> client" where
  "displayElapsedTime startTime endTime c =
     (let elapsed = Math_floor (double_minus endTime startTime)
      in c\<lparr>elapsedTimeText := TimeTaken elapsed\<rparr>)"

text \<open>
  The submit handler of the stream form, run at time \<open>now\<close>: lines 39 to 54. It opens
  the event source, whose messages then come to \<open>onmessage\<close>.
\<close>

definition stream_submit :: "rat \<Rightarrow> client \<Rightarrow> client" where
  "stream_submit now c =
     (let c1 = showLoading True c;
          c2 = cleanElapsedTime c1
      in c2\<lparr>timeStart := now, accumulatedText := []\<rparr>)"

text \<open>
  \<open>eventSource.onmessage\<close>, lines 57 to 68, for an event with data \<open>data\<close>, where
  \<open>performance.now()\<close> would give \<open>now\<close>.
\<close>

definition onmessage :: "rat \<times> jsstring \<Rightarrow> client \<Rightarrow> client" where
  "onmessage ev c =
     (let now = fst ev; data = snd ev;
          c1 = (if accumulatedText c = []
                then showLoading False (displayElapsedTime (timeStart c) now c)
                else c);
          c2 = c1\<lparr>accumulatedText := accumulatedText c1 @ data\<rparr>;
          cleanedText = cleanText (accumulatedText c2)
      in c2\<lparr>container := cleanedText\<rparr>)"

text \<open>The messages of a session, handled in the order they arrive.\<close>

fun receive :: "(rat \<times> jsstring) list \<Rightarrow> client \<Rightarrow> client" where
  "receive [] c = c"
| "receive (ev # evs) c = receive evs (onmessage ev c)"

subsection \<open>Decoding a payload, as the specification words the buffer invariant\<close>

text \<open>
  The client never decodes a payload. The specification's invariant speaks of the
  JSON-decoded payloads, so the decoding of a JSON string literal is defined here to
  state it: \<open>JSON_parse\<close> of a text that is one string literal, \<open>None\<close> where
  \<open>JSON.parse\<close> throws a SyntaxError.
\<close>

definition hexval :: "16 word \<Rightarrow> 16 word option" where
  "hexval c =
     (if 0x30 \<le> c \<and> c \<le> 0x39 then Some (c - 0x30)
      else if 0x61 \<le> c \<and> c \<le> 0x66 then Some (c - 0x61 + 10)
      else if 0x41 \<le> c \<and> c \<le> 0x46 then Some (c - 0x41 + 10)
      else None)"

definition hex4 :: "16 word \<Rightarrow> 16 word \<Rightarrow> 16 word \<Rightarrow> 16 word \<Rightarrow> 16 word option" where
  "hex4 a b c d =
     (case (hexval a, hexval b, hexval c, hexval d) of
        (Some h3, Some h2, Some h1, Some h0) \<Rightarrow>
          Some (push_bit 12 h3 OR push_bit 8 h2 OR push_bit 4 h1 OR h0)
      | _ \<Rightarrow> None)"

definition unescape :: "16 word \<Rightarrow> 16 word option" where
  "unescape e =
     (if e = 0x22 then Some 0x22
      else if e = 0x5C then Some 0x5C
      else if e = 0x2F then Some 0x2F
      else if e = 0x62 then Some 0x08
      else if e = 0x66 then Some 0x0C
      else if e = 0x6E then Some 0x0A
      else if e = 0x72 then Some 0x0D
      else if e = 0x74 then Some 0x09
      else None)"

text \<open>The text after the opening quote: characters and escapes, then the closing quote.\<close>

fun unquote_body :: "jsstring \<Rightarrow> jsstring option" where
  "unquote_body [] = None"
| "unquote_body (c # cs) =
     (if c = 0x22 then (if cs = [] then Some [] else None)
      else if c = 0x5C then
        (case cs of
           [] \<Rightarrow> None
         | e # r \<Rightarrow>
             if e = 0x75 then
               (case r of
                  h3 # h2 # h1 # h0 # r' \<Rightarrow>
                    (case hex4 h3 h2 h1 h0 of
                       None \<Rightarrow> None
                     | Some w \<Rightarrow> map_option ((#) w) (unquote_body r'))
                | _ \<Rightarrow> None)
             else
               (case unescape e of
                  None \<Rightarrow> None
                | Some w \<Rightarrow> map_option ((#) w) (unquote_body r)))
      else if c < 0x20 then None
      else map_option ((#) c) (unquote_body cs))"

definition JSON_parse :: "jsstring \<Rightarrow> jsstring option" where
  "JSON_parse t = (case t of [] \<Rightarrow> None | c # cs \<Rightarrow> if c = 0x22 then unquote_body cs else None)"

text \<open>
  The buffer as the specification's invariant words it: each payload decoded, the
  decoded texts concatenated.
\<close>

definition spec_decoded_buffer :: "jsstring list \<Rightarrow> jsstring option" where
  "spec_decoded_buffer payloads = map_option concat (those (map JSON_parse payloads))"

section \<open>Properties of the stream endpoint\<close>

lemma drain_yields:
  "drain (yields cs rest) =
     (map (\<lambda>s. Write (frame s)) (fragments cs) @ fst (drain rest), snd (drain rest))"
proof (induction cs)
  case Nil
  show ?case by simp
next
  case (Cons c cs)
  show ?case
  proof (cases c)
    case Undefined
    with Cons show ?thesis by simp
  next
    case (Text s)
    with Cons show ?thesis by (simp add: split_beta)
  qed
qed

lemma fragments_Text:
  "[] \<notin> set fs \<Longrightarrow> fragments (map Text fs) = fs"
  by (induction fs) auto

lemma stream_handler_completes:
  "stream_handler (Inr (yields cs Done)) =
     sse_headers @ map (\<lambda>s. Write (frame s)) (fragments cs) @ [End]"
  by (simp add: stream_handler_def drain_yields)

lemma stream_handler_throws:
  "stream_handler (Inr (yields cs (Throw e))) =
     sse_headers @ map (\<lambda>s. Write (frame s)) (fragments cs) @ catch_block e"
  by (simp add: stream_handler_def drain_yields)

lemma stream_handler_rejected:
  "stream_handler (Inl e) = catch_block e"
  by (simp add: stream_handler_def)

lemma writes_append: "writes (es @ fs) = writes es @ writes fs"
  by (induction es rule: writes.induct) auto

lemma writes_map_Write: "writes (map (\<lambda>s. Write (f s)) xs) = map f xs"
  by (induction xs) auto

lemma writes_sse_headers: "writes sse_headers = []"
  by (simp add: sse_headers_def)

lemmas json_simps =
  JSON_stringify_def QuoteJSONUnit_def isLeadingSurrogate_def isTrailingSurrogate_def
  UnicodeEscape_def hexdigit_def dquote_def lit_def

text \<open>
  C1. A producer that yields N non-empty fragments and then completes makes the
  endpoint set the headers, write exactly the N frames
  \<open>data: \<close> + JSON encoding + two newlines, in the order of the fragments, and then
  end the response; with N = 0 nothing is written and the response is still ended.
\<close>

theorem C1_clean_closure:
  assumes "[] \<notin> set fs"
  shows "stream_handler (Inr (yields (map Text fs) Done)) =
           sse_headers
           @ map (\<lambda>f. Write (lit ''data: '' @ JSON_stringify f @ lit ''\<newline>\<newline>'')) fs
           @ [End]
         \<and> writes (stream_handler (Inr (yields (map Text fs) Done))) =
           map (\<lambda>f. lit ''data: '' @ JSON_stringify f @ lit ''\<newline>\<newline>'') fs
         \<and> stream_handler (Inr (yields [] Done)) = sse_headers @ [End]"
proof -
  have fr: "frame = (\<lambda>f. lit ''data: '' @ JSON_stringify f @ lit ''\<newline>\<newline>'')"
    by (rule ext) (simp add: frame_def)
  have run: "stream_handler (Inr (yields (map Text fs) Done)) =
      sse_headers @ map (\<lambda>s. Write (frame s)) fs @ [End]"
    using assms by (simp add: stream_handler_completes fragments_Text)
  have body: "writes (stream_handler (Inr (yields (map Text fs) Done))) = map frame fs"
    unfolding run by (simp add: writes_append writes_map_Write writes_sse_headers)
  have empty: "stream_handler (Inr (yields [] Done)) = sse_headers @ [End]"
    by (simp add: stream_handler_def)
  from run body empty show ?thesis unfolding fr by simp
qed

theorem C1_clean_closure_witness:
  \<open>[] \<notin> set [lit ''Hel'', lit ''lo'']
   \<and> writes (stream_handler (Inr (yields (map Text [lit ''Hel'', lit ''lo'']) Done))) =
       [lit ''data: "Hel"\<newline>\<newline>'', lit ''data: "lo"\<newline>\<newline>'']\<close>
  using C1_clean_closure [of "[lit ''Hel'', lit ''lo'']"]
  by (simp add: json_simps writes_append writes_sse_headers)

text \<open>
  C2. A producer that fails after k non-empty fragments makes the endpoint write the k
  content frames, then the one diagnostic frame, and end the response. The failure may
  be the sequence throwing (after k \<ge> 0 fragments) or the call that opens the sequence
  rejecting (before any fragment). The diagnostic frame is \<open>data: \<close> followed by a
  plain sentence; it contains no newline, so no blank line ends it.
\<close>

theorem C2_error_closure:
  assumes "[] \<notin> set fs"
  shows "stream_handler (Inr (yields (map Text fs) (Throw e))) =
           sse_headers
           @ map (\<lambda>f. Write (lit ''data: '' @ JSON_stringify f @ lit ''\<newline>\<newline>'')) fs
           @ [ConsoleError (lit ''streaming error:'') e,
              Write (lit ''data: '' @ lit ''an error occurred while streaming response.''),
              End]
         \<and> writes (stream_handler (Inr (yields (map Text fs) (Throw e)))) =
           map (\<lambda>f. lit ''data: '' @ JSON_stringify f @ lit ''\<newline>\<newline>'') fs
           @ [lit ''data: '' @ lit ''an error occurred while streaming response.'']
         \<and> stream_handler (Inl e) =
           [ConsoleError (lit ''streaming error:'') e,
            Write (lit ''data: '' @ lit ''an error occurred while streaming response.''),
            End]
         \<and> 0x0A \<notin> set (lit ''an error occurred while streaming response.'')"
proof -
  have fr: "frame = (\<lambda>f. lit ''data: '' @ JSON_stringify f @ lit ''\<newline>\<newline>'')"
    by (rule ext) (simp add: frame_def)
  have dg: "diagnostic = lit ''data: '' @ lit ''an error occurred while streaming response.''"
    by (simp add: diagnostic_def lit_def)
  have run: "stream_handler (Inr (yields (map Text fs) (Throw e))) =
      sse_headers @ map (\<lambda>s. Write (frame s)) fs @ catch_block e"
    using assms by (simp add: stream_handler_throws fragments_Text)
  have body: "writes (stream_handler (Inr (yields (map Text fs) (Throw e)))) =
      map frame fs @ [diagnostic]"
    unfolding run
    by (simp add: writes_append writes_map_Write writes_sse_headers catch_block_def)
  have rejected: "stream_handler (Inl e) = catch_block e"
    by (rule stream_handler_rejected)
  have plain: "0x0A \<notin> set (lit ''an error occurred while streaming response.'')"
    by (simp add: lit_def)
  from run body rejected plain show ?thesis
    unfolding fr dg catch_block_def by simp
qed

theorem C2_error_closure_witness:
  \<open>[] \<notin> set [lit ''Hel'', lit ''lo'']
   \<and> writes (stream_handler
        (Inr (yields (map Text [lit ''Hel'', lit ''lo'']) (Throw (Error (lit ''timeout'')))))) =
       [lit ''data: "Hel"\<newline>\<newline>'', lit ''data: "lo"\<newline>\<newline>'',
        lit ''data: an error occurred while streaming response.'']\<close>
  using C2_error_closure [of "[lit ''Hel'', lit ''lo'']" "Error (lit ''timeout'')"]
  by (simp add: json_simps writes_append writes_sse_headers)

text \<open>
  C5. Chunks whose content is undefined or the empty string are skipped: the frames
  written are those of the non-empty fragments, in order, whatever else the producer
  yields. A producer yielding "a", "", "b", undefined content, "c" gives exactly the
  three frames of "a", "b" and "c".
\<close>

theorem C5_empty_fragment_filtering:
  \<open>writes (stream_handler (Inr (yields cs Done))) =
     map (\<lambda>f. lit ''data: '' @ JSON_stringify f @ lit ''\<newline>\<newline>'') (fragments cs)
   \<and> writes (stream_handler (Inr (yields cs (Throw e)))) =
     map (\<lambda>f. lit ''data: '' @ JSON_stringify f @ lit ''\<newline>\<newline>'') (fragments cs)
     @ [lit ''data: an error occurred while streaming response.'']
   \<and> fragments (Undefined # cs) = fragments cs
   \<and> fragments (Text [] # cs) = fragments cs
   \<and> writes (stream_handler (Inr (yields
        [Text (lit ''a''), Text (lit ''''), Text (lit ''b''), Undefined, Text (lit ''c'')]
        Done))) =
     [lit ''data: "a"\<newline>\<newline>'', lit ''data: "b"\<newline>\<newline>'', lit ''data: "c"\<newline>\<newline>'']\<close>
proof -
  have fr: "frame = (\<lambda>f. lit ''data: '' @ JSON_stringify f @ lit ''\<newline>\<newline>'')"
    by (rule ext) (simp add: frame_def)
  have body: "writes (stream_handler (Inr (yields cs Done))) = map frame (fragments cs)"
    for cs
    by (simp add: stream_handler_completes writes_append writes_map_Write writes_sse_headers)
  have example: \<open>map frame (fragments
      [Text (lit ''a''), Text (lit ''''), Text (lit ''b''), Undefined, Text (lit ''c'')]) =
      [lit ''data: "a"\<newline>\<newline>'', lit ''data: "b"\<newline>\<newline>'', lit ''data: "c"\<newline>\<newline>'']\<close>
    by (simp add: frame_def json_simps)
  have failing: "writes (stream_handler (Inr (yields cs (Throw e)))) =
      map frame (fragments cs) @ [lit ''data: an error occurred while streaming response.'']"
    by (simp add: stream_handler_throws writes_append writes_map_Write writes_sse_headers
        catch_block_def diagnostic_def)
  show ?thesis
    using example failing unfolding body fr by simp
qed

text \<open>
  C4. When the call that opens the producer's sequence rejects, which is how a producer
  fails before its first fragment, the handler goes to the catch block with no header
  set, and the diagnostic body is written without the three framing headers.
\<close>

theorem C4_rejected_producer_no_headers:
  "stream_handler (Inl (Error (lit ''401''))) =
     [ConsoleError (lit ''streaming error:'') (Error (lit ''401'')),
      Write (lit ''data: an error occurred while streaming response.''), End]
   \<and> \<not> headers_before_body (stream_handler (Inl (Error (lit ''401''))))"
  by (simp add: stream_handler_rejected catch_block_def diagnostic_def
      headers_before_body_def sse_headers_def)

text \<open>Once the sequence is open, the headers do come before every body write.\<close>

lemma headers_before_body_open:
  "headers_before_body (stream_handler (Inr st))"
proof -
  obtain es r where d: "drain st = (es, r)" by (cases "drain st")
  have "\<exists>rest. stream_handler (Inr st) = sse_headers @ rest"
    using d by (cases r) (simp_all add: stream_handler_def)
  then obtain rest where run: "stream_handler (Inr st) = sse_headers @ rest" ..
  have "takeWhile (\<lambda>e. \<not> is_Write e) (sse_headers @ rest) =
      sse_headers @ takeWhile (\<lambda>e. \<not> is_Write e) rest"
    by (simp add: sse_headers_def)
  then show ?thesis
    unfolding headers_before_body_def run by simp
qed

section \<open>Properties of cleanText\<close>

lemmas clean_simps =
  cleanText_def trim_def replace_trailing_quote_def isWhiteSpace_def dquote_def lit_def

lemma trim_idem: "trim (trim s) = trim s"
proof -
  define y where "y = dropWhile isWhiteSpace s"
  define t where "t = rev (dropWhile isWhiteSpace (rev y))"
  have split: "y = t @ rev (takeWhile isWhiteSpace (rev y))"
    unfolding t_def by (metis rev_append rev_rev_ident takeWhile_dropWhile_id)
  have front: "dropWhile isWhiteSpace t = t"
  proof (cases "t = []")
    case True
    then show ?thesis by simp
  next
    case False
    with split have "y \<noteq> []" by auto
    then have "\<not> isWhiteSpace (hd y)"
      unfolding y_def by (rule hd_dropWhile)
    moreover from False split have "hd y = hd t"
      by (metis hd_append2)
    ultimately show ?thesis by (simp add: dropWhile_eq_self_iff)
  qed
  have "trim t = rev (dropWhile isWhiteSpace (rev t))"
    by (simp add: trim_def front)
  also have "\<dots> = t" by (simp add: t_def)
  finally show ?thesis by (simp add: trim_def t_def y_def)
qed

lemma length_trim_le: "length (trim s) \<le> length s"
proof -
  have "length (trim s) \<le> length (dropWhile isWhiteSpace s)"
    unfolding trim_def by (metis length_dropWhile_le length_rev)
  also have "\<dots> \<le> length s" by (rule length_dropWhile_le)
  finally show ?thesis .
qed

lemma replace_double_quotes_id:
  "\<not> has_double_quotes s \<Longrightarrow> replace_double_quotes s = s"
  by (induction s rule: replace_double_quotes.induct) auto

lemma length_replace_double_quotes_le:
  "length (replace_double_quotes s) \<le> length s"
  by (induction s rule: replace_double_quotes.induct) auto

lemma length_replace_double_quotes_less:
  "has_double_quotes s \<Longrightarrow> length (replace_double_quotes s) < length s"
proof (induction s rule: replace_double_quotes.induct)
  case (3 c d cs)
  show ?case
  proof (cases "c = dquote \<and> d = dquote")
    case True
    then show ?thesis
      using length_replace_double_quotes_le [of cs] by simp
  next
    case False
    with 3 show ?thesis by auto
  qed
qed simp_all

lemma replace_leading_quote_id:
  "\<not> starts_with_quote s \<Longrightarrow> replace_leading_quote s = s"
  by (cases s) (auto simp: starts_with_quote_def)

lemma length_replace_leading_quote_le:
  "length (replace_leading_quote s) \<le> length s"
  by (cases s) auto

lemma length_replace_leading_quote_less:
  "starts_with_quote s \<Longrightarrow> length (replace_leading_quote s) < length s"
  by (cases s) (auto simp: starts_with_quote_def)

lemma replace_trailing_quote_id:
  "\<not> ends_with_quote s \<Longrightarrow> replace_trailing_quote s = s"
  by (auto simp: ends_with_quote_def replace_trailing_quote_def)

lemma length_replace_trailing_quote_le:
  "length (replace_trailing_quote s) \<le> length s"
  by (simp add: replace_trailing_quote_def)

lemma length_replace_trailing_quote_less:
  "ends_with_quote s \<Longrightarrow> length (replace_trailing_quote s) < length s"
  by (auto simp: ends_with_quote_def replace_trailing_quote_def)

lemma length_cleanText_less:
  assumes "starts_with_quote t \<or> has_double_quotes t \<or> ends_with_quote t"
  shows "length (cleanText t) < length t"
proof -
  let ?a = "replace_leading_quote t"
  let ?b = "replace_double_quotes ?a"
  let ?c = "replace_trailing_quote ?b"
  have le: "length (cleanText t) \<le> length ?c" "length ?c \<le> length ?b"
    "length ?b \<le> length ?a" "length ?a \<le> length t"
    by (simp_all add: cleanText_def length_trim_le length_replace_trailing_quote_le
        length_replace_double_quotes_le length_replace_leading_quote_le)
  show ?thesis
  proof (cases "starts_with_quote t")
    case True
    then have "length ?a < length t" by (rule length_replace_leading_quote_less)
    with le show ?thesis by linarith
  next
    case lead: False
    then have a: "?a = t" by (rule replace_leading_quote_id)
    show ?thesis
    proof (cases "has_double_quotes t")
      case True
      then have "length ?b < length t"
        by (simp add: a length_replace_double_quotes_less)
      with le show ?thesis by linarith
    next
      case False
      then have b: "?b = t" by (simp add: a replace_double_quotes_id)
      from assms lead False have "ends_with_quote t" by simp
      then have "length ?c < length t"
        by (simp add: b length_replace_trailing_quote_less)
      with le show ?thesis by linarith
    qed
  qed
qed

lemma cleanText_fixed:
  assumes "\<not> starts_with_quote t" "\<not> has_double_quotes t" "\<not> ends_with_quote t"
  shows "cleanText t = trim t"
  using assms
  by (simp add: cleanText_def replace_leading_quote_id replace_double_quotes_id
      replace_trailing_quote_id)

lemma has_double_quotes_iff:
  "has_double_quotes t \<longleftrightarrow> (\<exists>u v. t = u @ [dquote, dquote] @ v)"
proof (induction t rule: has_double_quotes.induct)
  case 1
  show ?case by simp
next
  case (2 c)
  show ?case by simp
next
  case (3 c d cs)
  show ?case
  proof
    assume "has_double_quotes (c # d # cs)"
    then consider "c = dquote \<and> d = dquote" | "has_double_quotes (d # cs)" by auto
    then show "\<exists>u v. c # d # cs = u @ [dquote, dquote] @ v"
    proof cases
      case 1
      then have "c # d # cs = [] @ [dquote, dquote] @ cs" by simp
      then show ?thesis by blast
    next
      case 2
      with 3 obtain u v where "d # cs = u @ [dquote, dquote] @ v" by blast
      then have "c # d # cs = (c # u) @ [dquote, dquote] @ v" by simp
      then show ?thesis by blast
    qed
  next
    assume "\<exists>u v. c # d # cs = u @ [dquote, dquote] @ v"
    then obtain u v where eq: "c # d # cs = u @ [dquote, dquote] @ v" by blast
    show "has_double_quotes (c # d # cs)"
    proof (cases u)
      case Nil
      with eq show ?thesis by simp
    next
      case (Cons a u')
      with eq have "d # cs = u' @ [dquote, dquote] @ v" by simp
      with 3 have "has_double_quotes (d # cs)" by blast
      then show ?thesis by simp
    qed
  qed
qed

lemma replace_double_quotes_leftmost:
  "\<not> has_double_quotes (u @ [dquote]) \<Longrightarrow>
     replace_double_quotes (u @ [dquote, dquote] @ v) = u @ replace_double_quotes v"
proof (induction u rule: has_double_quotes.induct)
  case 1
  show ?case by simp
next
  case (2 c)
  then show ?case by simp
next
  case (3 c d cs)
  then show ?case by auto
qed

lemma trim_split:
  "\<exists>pre post. x = pre @ trim x @ post
     \<and> (\<forall>c \<in> set pre. isWhiteSpace c) \<and> (\<forall>c \<in> set post. isWhiteSpace c)"
proof -
  define y where "y = dropWhile isWhiteSpace x"
  have "y = trim x @ rev (takeWhile isWhiteSpace (rev y))"
    unfolding trim_def y_def by (metis rev_append rev_rev_ident takeWhile_dropWhile_id)
  then have "x = takeWhile isWhiteSpace x @ trim x @ rev (takeWhile isWhiteSpace (rev y))"
    unfolding y_def by (metis takeWhile_dropWhile_id)
  moreover have "\<forall>c \<in> set (takeWhile isWhiteSpace x). isWhiteSpace c"
    by (auto dest: set_takeWhileD)
  moreover have "\<forall>c \<in> set (rev (takeWhile isWhiteSpace (rev y))). isWhiteSpace c"
    by (auto dest: set_takeWhileD)
  ultimately show ?thesis by blast
qed

lemma trim_front: "dropWhile isWhiteSpace (trim x) = trim x"
proof (cases "trim x = []")
  case True
  then show ?thesis by simp
next
  case False
  define y where "y = dropWhile isWhiteSpace x"
  have split: "y = trim x @ rev (takeWhile isWhiteSpace (rev y))"
    unfolding trim_def y_def by (metis rev_append rev_rev_ident takeWhile_dropWhile_id)
  with False have "y \<noteq> []" by auto
  then have "\<not> isWhiteSpace (hd y)"
    unfolding y_def by (rule hd_dropWhile)
  moreover from False split have "hd y = hd (trim x)"
    by (metis hd_append2)
  ultimately show ?thesis by (simp add: dropWhile_eq_self_iff)
qed

lemma trim_ends:
  "trim x = [] \<or> (\<not> isWhiteSpace (hd (trim x)) \<and> \<not> isWhiteSpace (last (trim x)))"
proof (cases "trim x = []")
  case True
  then show ?thesis by simp
next
  case False
  then have front: "\<not> isWhiteSpace (hd (trim x))"
    using trim_front [of x] by (simp add: dropWhile_eq_self_iff)
  from False have ne: "dropWhile isWhiteSpace (rev (dropWhile isWhiteSpace x)) \<noteq> []"
    by (simp add: trim_def)
  then have "\<not> isWhiteSpace (hd (dropWhile isWhiteSpace (rev (dropWhile isWhiteSpace x))))"
    by (rule hd_dropWhile)
  then have rear: "\<not> isWhiteSpace (last (trim x))"
    using ne by (simp add: trim_def last_rev)
  from front rear show ?thesis by simp
qed


lemma isWhiteSpace_set:
  "isWhiteSpace w \<longleftrightarrow>
     w \<in> {0x09, 0x0A, 0x0B, 0x0C, 0x0D, 0x20, 0xA0, 0x1680, 0x2028, 0x2029, 0x202F, 0x205F,
          0x3000, 0xFEFF} \<union> {0x2000 .. 0x200A}"
  by (auto simp: isWhiteSpace_def)

lemma cleanText_steps:
  "cleanText s =
     (let a = (if s \<noteq> [] \<and> hd s = 0x22 then tl s else s);
          b = replace_double_quotes a;
          c = (if b \<noteq> [] \<and> last b = 0x22 then butlast b else b)
      in trim c)"
proof -
  have "replace_leading_quote s = (if s \<noteq> [] \<and> hd s = 0x22 then tl s else s)"
    by (cases s) (simp_all add: dquote_def)
  then show ?thesis
    by (simp add: cleanText_def replace_trailing_quote_def dquote_def Let_def)
qed

text \<open>
  C6. cleanText strips one leading quote, then removes the doubled quotes, then strips
  one trailing quote, then trims white space from both ends. The removal of doubled
  quotes leaves a text without them unchanged and otherwise takes out the leftmost
  pair and goes on behind it. The trimmed text is the text without a prefix and a
  suffix of white space, and neither starts nor ends with white space. On the raw
  joined buffer of the fragments "Hel", "lo, wor" and "ld" the result is
  \<open>Hello, world\<close>; white space inside the outer quotes is trimmed, a quote followed
  by white space is not a trailing quote.
\<close>

theorem C6_display_cleanup:
  \<open>cleanText s =
     (let a = (if s \<noteq> [] \<and> hd s = 0x22 then tl s else s);
          b = replace_double_quotes a;
          c = (if b \<noteq> [] \<and> last b = 0x22 then butlast b else b)
      in trim c)
   \<and> (has_double_quotes t \<longleftrightarrow> (\<exists>u v. t = u @ [0x22, 0x22] @ v))
   \<and> (\<not> has_double_quotes t \<longrightarrow> replace_double_quotes t = t)
   \<and> (\<not> has_double_quotes (u @ [0x22]) \<longrightarrow>
        replace_double_quotes (u @ [0x22, 0x22] @ v) = u @ replace_double_quotes v)
   \<and> (\<exists>pre post. x = pre @ trim x @ post
        \<and> (\<forall>c \<in> set pre. isWhiteSpace c) \<and> (\<forall>c \<in> set post. isWhiteSpace c))
   \<and> (trim x = [] \<or> (\<not> isWhiteSpace (hd (trim x)) \<and> \<not> isWhiteSpace (last (trim x))))
   \<and> (isWhiteSpace w \<longleftrightarrow>
        w \<in> {0x09, 0x0A, 0x0B, 0x0C, 0x0D, 0x20, 0xA0, 0x1680, 0x2028, 0x2029, 0x202F, 0x205F,
             0x3000, 0xFEFF} \<union> {0x2000 .. 0x200A})
   \<and> cleanText (lit ''"Hel""lo, wor""ld"'') = lit ''Hello, world''
   \<and> cleanText (lit ''" Hello ""world "'') = lit ''Hello world''
   \<and> cleanText ([0x09, 0xA0] @ lit ''a b'' @ [0x0A, 0x3000]) = lit ''a b''
   \<and> cleanText (lit ''"a" '') = lit ''a"''
   \<and> cleanText (lit ''""""'') = []\<close>
proof -
  have pairs: "has_double_quotes t \<longleftrightarrow> (\<exists>u v. t = u @ [0x22, 0x22] @ v)"
    using has_double_quotes_iff [of t] by (simp add: dquote_def)
  have unchanged: "\<not> has_double_quotes t \<longrightarrow> replace_double_quotes t = t"
    by (simp add: replace_double_quotes_id)
  have leftmost: "\<not> has_double_quotes (u @ [0x22]) \<longrightarrow>
      replace_double_quotes (u @ [0x22, 0x22] @ v) = u @ replace_double_quotes v"
    using replace_double_quotes_leftmost [of u v] by (simp add: dquote_def)
  have e1: \<open>cleanText (lit ''"Hel""lo, wor""ld"'') = lit ''Hello, world''\<close>
    by (simp add: clean_simps)
  have e2: \<open>cleanText (lit ''" Hello ""world "'') = lit ''Hello world''\<close>
    by (simp add: clean_simps)
  have e3: "cleanText ([0x09, 0xA0] @ lit ''a b'' @ [0x0A, 0x3000]) = lit ''a b''"
    by (simp add: clean_simps)
  have e4: \<open>cleanText (lit ''"a" '') = lit ''a"''\<close>
    by (simp add: clean_simps)
  have e5: \<open>cleanText (lit ''""""'') = []\<close>
    by (simp add: clean_simps)
  show ?thesis
    by (intro conjI cleanText_steps pairs unchanged leftmost trim_split trim_ends
        isWhiteSpace_set e1 e2 e3 e4 e5)
qed

theorem C6_display_cleanup_witness:
  \<open>\<not> has_double_quotes (lit ''a'' @ [0x22])
   \<and> replace_double_quotes (lit ''a'' @ [0x22, 0x22] @ lit ''b""c'') = lit ''abc''
   \<and> \<not> has_double_quotes (lit ''abc'')
   \<and> replace_double_quotes (lit ''abc'') = lit ''abc''
   \<and> trim (lit '' a b  '') = lit ''a b''
   \<and> cleanText (lit '' "a" '') = lit ''"a"''\<close>
  using C6_display_cleanup [where s = \<open>lit '' "a" ''\<close> and t = \<open>lit ''abc''\<close>
      and u = \<open>lit ''a''\<close> and v = \<open>lit ''b""c''\<close> and x = \<open>lit '' a b  ''\<close> and w = "0x20"]
  by (simp add: clean_simps)

section \<open>Properties of the number model\<close>

text \<open>
  C8. cleanText is not idempotent: the first pass can uncover a quote that a second
  pass removes. From a doubled quote followed by \<open>a\<close> the first pass leaves a quote
  and \<open>a\<close>, the second pass leaves \<open>a\<close>.
\<close>

theorem C8_not_idempotent:
  \<open>cleanText (lit ''""a'') = lit ''"a''
   \<and> cleanText (cleanText (lit ''""a'')) = lit ''a''
   \<and> cleanText (cleanText (lit ''""a'')) \<noteq> cleanText (lit ''""a'')\<close>
  by (simp add: clean_simps)

text \<open>
  C8, corrected. A second pass changes nothing exactly when the cleaned text neither
  starts nor ends with a quote and has no doubled quote.
\<close>

theorem C8_idempotent_iff:
  "cleanText (cleanText s) = cleanText s \<longleftrightarrow>
     \<not> starts_with_quote (cleanText s) \<and> \<not> has_double_quotes (cleanText s)
     \<and> \<not> ends_with_quote (cleanText s)"
proof
  assume fixed: "cleanText (cleanText s) = cleanText s"
  show "\<not> starts_with_quote (cleanText s) \<and> \<not> has_double_quotes (cleanText s)
     \<and> \<not> ends_with_quote (cleanText s)"
  proof (rule ccontr)
    assume "\<not> ?thesis"
    then have "length (cleanText (cleanText s)) < length (cleanText s)"
      by (intro length_cleanText_less) blast
    with fixed show False by simp
  qed
next
  assume "\<not> starts_with_quote (cleanText s) \<and> \<not> has_double_quotes (cleanText s)
     \<and> \<not> ends_with_quote (cleanText s)"
  then have "cleanText (cleanText s) = trim (cleanText s)"
    by (simp add: cleanText_fixed)
  also have "\<dots> = cleanText s"
    unfolding cleanText_def by (rule trim_idem)
  finally show "cleanText (cleanText s) = cleanText s" .
qed


theorem C8_idempotent_iff_witness:
  \<open>cleanText (cleanText (lit ''"Hel""lo, wor""ld"'')) = cleanText (lit ''"Hel""lo, wor""ld"'')
   \<and> \<not> has_double_quotes (cleanText (lit ''"Hel""lo, wor""ld"''))\<close>
  using C8_idempotent_iff [of \<open>lit ''"Hel""lo, wor""ld"''\<close>]
  by (simp add: clean_simps starts_with_quote_def ends_with_quote_def)

section \<open>Decoding inverts the encoding\<close>

text \<open>
  The decoder used to word the specification's buffer invariant gives back every string
  that \<open>JSON_stringify\<close> encodes, escapes and surrogates included.
\<close>

lemma hexval_hexdigit:
  fixes n :: "16 word"
  assumes "n < 16"
  shows "hexval (hexdigit n) = Some n"
proof -
  have k: "unat n < 16" using assms by (simp add: word_less_nat_alt)
  show ?thesis
  proof (cases "n < 10")
    case True
    then have "unat n < 10" by (simp add: word_less_nat_alt)
    moreover have "unat (0x30 + n) = (48 + unat n) mod 65536"
      by (simp add: unat_word_ariths)
    ultimately have "unat (0x30 + n) = 48 + unat n" by simp
    with \<open>unat n < 10\<close> have "0x30 \<le> 0x30 + n \<and> 0x30 + n \<le> 0x39"
      by (simp add: word_le_nat_alt)
    with True show ?thesis by (simp add: hexval_def hexdigit_def)
  next
    case False
    then have ge: "10 \<le> n" by simp
    then have lo: "10 \<le> unat n" by (simp add: word_le_nat_alt)
    have "unat (0x61 + (n - 10)) = (87 + unat n) mod 65536"
      by (simp add: unat_word_ariths)
    then have "unat (0x61 + (n - 10)) = 87 + unat n" using k by simp
    with lo k have "\<not> 0x61 + (n - 10) \<le> 0x39 \<and> 0x61 \<le> 0x61 + (n - 10) \<and> 0x61 + (n - 10) \<le> 0x66"
      by (simp add: word_le_nat_alt)
    with False show ?thesis by (simp add: hexval_def hexdigit_def)
  qed
qed


lemma nibble_less: "(w :: 16 word) AND 0xF < 16"
proof -
  have "w AND mask 4 < 2 ^ 4" by (rule and_mask_less_size) (simp add: word_size)
  then show ?thesis by (simp add: mask_eq_exp_minus_1)
qed

lemma nibbles_join:
  fixes w :: "16 word"
  shows "push_bit 12 (drop_bit 12 w AND 0xF) OR push_bit 8 (drop_bit 8 w AND 0xF)
     OR push_bit 4 (drop_bit 4 w AND 0xF) OR (w AND 0xF) = w"
proof -
  have m: "(0xF :: 16 word) = mask 4" by (simp add: mask_eq_exp_minus_1)
  show ?thesis
    unfolding m
  proof (rule bit_word_eqI)
    fix n :: nat
    assume "n < LENGTH(16)"
    then consider "n < 4" | "4 \<le> n" "n < 8" | "8 \<le> n" "n < 12" | "12 \<le> n" "n < 16"
      by fastforce
    then show "bit (push_bit 12 (drop_bit 12 w AND mask 4) OR push_bit 8 (drop_bit 8 w AND mask 4)
        OR push_bit 4 (drop_bit 4 w AND mask 4) OR (w AND mask 4)) n = bit w n"
      by cases (auto simp: bit_simps)
  qed
qed

lemma hex4_UnicodeEscape:
  "hex4 (hexdigit (drop_bit 12 c AND 0xF)) (hexdigit (drop_bit 8 c AND 0xF))
     (hexdigit (drop_bit 4 c AND 0xF)) (hexdigit (c AND 0xF)) = Some c"
  by (simp only: hex4_def hexval_hexdigit [OF nibble_less] prod.case option.case nibbles_join)

lemma unquote_body_UnicodeEscape:
  "unquote_body (UnicodeEscape c @ rest) = map_option ((#) c) (unquote_body rest)"
proof -
  have "unquote_body (UnicodeEscape c @ rest) =
      (case hex4 (hexdigit (drop_bit 12 c AND 0xF)) (hexdigit (drop_bit 8 c AND 0xF))
         (hexdigit (drop_bit 4 c AND 0xF)) (hexdigit (c AND 0xF)) of
         None \<Rightarrow> None
       | Some w \<Rightarrow> map_option ((#) w) (unquote_body rest))"
    by (simp add: UnicodeEscape_def)
  then show ?thesis by (simp only: hex4_UnicodeEscape option.case)
qed

lemma unquote_body_QuoteJSONUnit:
  "unquote_body (QuoteJSONUnit c @ rest) = map_option ((#) c) (unquote_body rest)"
  by (simp add: QuoteJSONUnit_def unquote_body_UnicodeEscape unescape_def)

lemma unquote_body_surrogate:
  assumes "isLeadingSurrogate c \<or> isTrailingSurrogate c"
  shows "unquote_body (c # rest) = map_option ((#) c) (unquote_body rest)"
proof -
  from assms have big: "55296 \<le> unat c"
    unfolding isLeadingSurrogate_def isTrailingSurrogate_def word_le_nat_alt by auto
  then have "c \<noteq> 0x22" "c \<noteq> 0x5C" "\<not> c < 0x20"
    by (auto simp: word_less_nat_alt)
  then show ?thesis by simp
qed

lemma unquote_body_QuoteJSONBody:
  "unquote_body (QuoteJSONBody s @ rest) = map_option (\<lambda>r. s @ r) (unquote_body rest)"
proof (induction s arbitrary: rest rule: QuoteJSONBody.induct)
  case 1
  show ?case by (simp add: option.map_ident)
next
  case (2 c)
  show ?case by (simp add: unquote_body_QuoteJSONUnit option.map_comp comp_def)
next
  case (3 c d cs)
  show ?case
  proof (cases "isLeadingSurrogate c \<and> isTrailingSurrogate d")
    case True
    then have c: "isLeadingSurrogate c \<or> isTrailingSurrogate c"
      and d: "isLeadingSurrogate d \<or> isTrailingSurrogate d"
      by simp_all
    have "unquote_body (QuoteJSONBody (c # d # cs) @ rest) =
        unquote_body (c # d # (QuoteJSONBody cs @ rest))"
      using True by (simp del: unquote_body.simps)
    also have "\<dots> =
        map_option ((#) c) (map_option ((#) d) (unquote_body (QuoteJSONBody cs @ rest)))"
      by (simp only: unquote_body_surrogate [OF c] unquote_body_surrogate [OF d])
    also have "\<dots> = map_option (\<lambda>r. (c # d # cs) @ r) (unquote_body rest)"
      using "3.IH"(1) [OF True, of rest]
      by (simp add: option.map_comp comp_def del: unquote_body.simps)
    finally show ?thesis .
  next
    case False
    then have "QuoteJSONBody (c # d # cs) = QuoteJSONUnit c @ QuoteJSONBody (d # cs)"
      by auto
    then have "unquote_body (QuoteJSONBody (c # d # cs) @ rest) =
        unquote_body (QuoteJSONUnit c @ (QuoteJSONBody (d # cs) @ rest))"
      by (simp del: unquote_body.simps QuoteJSONBody.simps)
    also have "\<dots> = map_option ((#) c) (unquote_body (QuoteJSONBody (d # cs) @ rest))"
      by (rule unquote_body_QuoteJSONUnit)
    also have "\<dots> = map_option (\<lambda>r. (c # d # cs) @ r) (unquote_body rest)"
      using "3.IH"(2) [OF False, of rest]
      by (simp add: option.map_comp comp_def del: unquote_body.simps QuoteJSONBody.simps)
    finally show ?thesis .
  qed
qed

lemma JSON_round_trip: "JSON_parse (JSON_stringify s) = Some s"
  by (simp add: JSON_parse_def JSON_stringify_def dquote_def unquote_body_QuoteJSONBody)

lemma spec_decoded_buffer_frames:
  "spec_decoded_buffer (map JSON_stringify fs) = Some (concat fs)"
proof -
  have "those (map JSON_parse (map JSON_stringify fs)) = Some fs"
    by (induction fs) (simp_all add: JSON_round_trip)
  then show ?thesis by (simp add: spec_decoded_buffer_def)
qed

section \<open>Properties of the number model\<close>

text \<open>
  The exponent found by \<open>binade\<close> is the right one, the rounding stays within half a
  unit in the last place, and the results at some doubles, computed from these facts.
\<close>

lemma bit_length_Suc_0: "bit_length (Suc 0) = Suc 0"
  by (simp add: bit_length.simps [of "Suc 0"] bit_length.simps [of 0])

lemma bit_length_bounds:
  "0 < n \<Longrightarrow> 2 ^ (bit_length n - 1) \<le> n \<and> n < 2 ^ bit_length n"
proof (induction n rule: bit_length.induct)
  case (1 n)
  show ?case
  proof (cases "n div 2 = 0")
    case True
    with \<open>0 < n\<close> have "n = 1" by (cases n) auto
    then show ?thesis by (simp add: bit_length_Suc_0)
  next
    case False
    then have pos: "0 < n div 2" by simp
    define k :: nat where "k = 2 ^ (bit_length (n div 2) - 1)"
    from pos 1 have IH: "k \<le> n div 2" "n div 2 < 2 ^ bit_length (n div 2)"
      unfolding k_def by auto
    have bl: "bit_length n = Suc (bit_length (n div 2))"
      using \<open>0 < n\<close> by (simp add: bit_length.simps [of n])
    have "0 < bit_length (n div 2)"
      using pos by (simp add: bit_length.simps [of "n div 2"])
    then have half: "(2::nat) ^ bit_length (n div 2) = 2 * k"
      unfolding k_def by (cases "bit_length (n div 2)") simp_all
    with IH have "2 * k \<le> n" "n < 2 * (2 * k)" by arith+
    then show ?thesis unfolding bl by (simp add: half)
  qed
qed

lemma pow2_powi: "pow2 e = 2 powi e"
  by (simp add: pow2_def power_int_def power_one_over inverse_eq_divide)

lemma pow2_pos: "0 < pow2 e"
  by (simp add: pow2_def)

lemma pow2_add: "pow2 (a + b) = pow2 a * pow2 b"
  by (simp add: pow2_powi power_int_add)

lemma pow2_mono: "a \<le> b \<Longrightarrow> pow2 a \<le> pow2 b"
  by (simp add: pow2_powi power_int_increasing)

lemma pow2_diff_nat: "pow2 (int a - int b) = 2 ^ a / 2 ^ b"
  by (simp add: pow2_powi power_int_diff)


lemma pow2_strict_mono: "a < b \<Longrightarrow> pow2 a < pow2 b"
  by (simp add: pow2_powi power_int_strict_increasing)

lemma binade_bounds:
  assumes "x \<noteq> 0"
  shows "pow2 (binade x) \<le> \<bar>x\<bar> \<and> \<bar>x\<bar> < pow2 (binade x + 1)"
proof -
  obtain p q where pq: "quotient_of \<bar>x\<bar> = (p, q)" by (cases "quotient_of \<bar>x\<bar>")
  then have q: "0 < q" by (rule quotient_of_denom_pos)
  from pq have x: "\<bar>x\<bar> = of_int p / of_int q" by (rule quotient_of_div)
  from assms have "0 < \<bar>x\<bar>" by simp
  with x q have p: "0 < p" by (simp add: zero_less_divide_iff)
  define bp where "bp = bit_length (nat p)"
  define bq where "bq = bit_length (nat q)"
  define d where "d = int bp - int bq"
  from p have bp: "2 ^ (bp - 1) \<le> nat p" "nat p < 2 ^ bp"
    using bit_length_bounds [of "nat p"] by (simp_all add: bp_def)
  from q have bq: "2 ^ (bq - 1) \<le> nat q" "nat q < 2 ^ bq"
    using bit_length_bounds [of "nat q"] by (simp_all add: bq_def)
  from p have bp_pos: "0 < bp" by (simp add: bp_def bit_length.simps [of "nat p"])
  from q have bq_pos: "0 < bq" by (simp add: bq_def bit_length.simps [of "nat q"])
  have P: "rat_of_int p = of_nat (nat p)" using p by simp
  have Q: "rat_of_int q = of_nat (nat q)" using q by simp
  have p_lo: "(2::rat) ^ (bp - 1) \<le> of_int p"
    unfolding P using bp(1) by (metis of_nat_le_iff of_nat_numeral of_nat_power)
  have p_hi: "rat_of_int p < 2 ^ bp"
    unfolding P using bp(2) by (metis of_nat_less_iff of_nat_numeral of_nat_power)
  have q_lo: "(2::rat) ^ (bq - 1) \<le> of_int q"
    unfolding Q using bq(1) by (metis of_nat_le_iff of_nat_numeral of_nat_power)
  have q_hi: "rat_of_int q < 2 ^ bq"
    unfolding Q using bq(2) by (metis of_nat_less_iff of_nat_numeral of_nat_power)
  have qpos: "0 < rat_of_int q" using q by simp
  have upper: "\<bar>x\<bar> < pow2 (d + 1)"
  proof -
    have "pow2 (d + 1) = 2 ^ bp / 2 ^ (bq - 1)"
      using bq_pos pow2_diff_nat [of bp "bq - 1"] by (simp add: d_def of_nat_diff algebra_simps)
    moreover have "of_int p / of_int q < (2::rat) ^ bp / 2 ^ (bq - 1)"
      using p_hi q_lo qpos p by (intro frac_less) simp_all
    ultimately show ?thesis by (simp add: x)
  qed
  have lower: "pow2 (d - 1) \<le> \<bar>x\<bar>"
  proof -
    have "pow2 (d - 1) = 2 ^ (bp - 1) / 2 ^ bq"
      using bp_pos pow2_diff_nat [of "bp - 1" bq] by (simp add: d_def of_nat_diff algebra_simps)
    moreover have "(2::rat) ^ (bp - 1) / 2 ^ bq \<le> of_int p / of_int q"
      using p_lo q_hi qpos p by (intro frac_le) simp_all
    ultimately show ?thesis by (simp add: x)
  qed
  have b: "binade x = (if pow2 d \<le> \<bar>x\<bar> then d else d - 1)"
    by (simp add: binade_def pq bp_def bq_def d_def Let_def)
  show ?thesis
  proof (cases "pow2 d \<le> \<bar>x\<bar>")
    case True
    with upper b show ?thesis by simp
  next
    case False
    with lower b show ?thesis by simp
  qed
qed

lemma binade_eqI:
  assumes "pow2 e \<le> \<bar>x\<bar>" "\<bar>x\<bar> < pow2 (e + 1)"
  shows "binade x = e"
proof -
  from assms(1) pow2_pos [of e] have "x \<noteq> 0" by auto
  then have b: "pow2 (binade x) \<le> \<bar>x\<bar>" "\<bar>x\<bar> < pow2 (binade x + 1)"
    using binade_bounds by simp_all
  show ?thesis
  proof (rule ccontr)
    assume "binade x \<noteq> e"
    then consider "binade x + 1 \<le> e" | "e + 1 \<le> binade x" by linarith
    then show False
    proof cases
      case 1
      then have "pow2 (binade x + 1) \<le> pow2 e" by (rule pow2_mono)
      with b(2) assms(1) show False by simp
    next
      case 2
      then have "pow2 (e + 1) \<le> pow2 (binade x)" by (rule pow2_mono)
      with b(1) assms(2) show False by simp
    qed
  qed
qed

lemma round_half_even_near: "\<bar>of_int (round_half_even y) - y\<bar> \<le> 1 / 2"
proof -
  have "of_int \<lfloor>y\<rfloor> \<le> y" "y < of_int \<lfloor>y\<rfloor> + 1" by linarith+
  then show ?thesis
    by (auto simp: round_half_even_def Let_def abs_le_iff)
qed

lemma round_half_even_eqI:
  assumes "\<bar>y - of_int r\<bar> < 1 / 2"
  shows "round_half_even y = r"
proof -
  have fl: "of_int \<lfloor>y\<rfloor> \<le> y" "y < of_int \<lfloor>y\<rfloor> + 1" by linarith+
  from assms have r: "rat_of_int r - 1 / 2 < y" "y < of_int r + 1 / 2"
    by linarith+
  show ?thesis
  proof (cases "y - of_int \<lfloor>y\<rfloor> < 1 / 2")
    case True
    with fl r have "rat_of_int r - 1 < of_int \<lfloor>y\<rfloor>" "rat_of_int \<lfloor>y\<rfloor> < of_int r + 1"
      by linarith+
    then have "rat_of_int (r - 1) < of_int \<lfloor>y\<rfloor>" "rat_of_int \<lfloor>y\<rfloor> < of_int (r + 1)"
      by simp_all
    then have "r - 1 < \<lfloor>y\<rfloor>" "\<lfloor>y\<rfloor> < r + 1" by (simp_all only: of_int_less_iff)
    then have "\<lfloor>y\<rfloor> = r" by linarith
    with True show ?thesis by (simp add: round_half_even_def Let_def)
  next
    case False
    with fl r have "rat_of_int \<lfloor>y\<rfloor> < of_int r" "rat_of_int r < of_int \<lfloor>y\<rfloor> + 2"
      by linarith+
    then have "rat_of_int \<lfloor>y\<rfloor> < of_int r" "rat_of_int r < of_int (\<lfloor>y\<rfloor> + 2)"
      by simp_all
    then have "\<lfloor>y\<rfloor> < r" "r < \<lfloor>y\<rfloor> + 2" by (simp_all only: of_int_less_iff)
    then have eq: "r = \<lfloor>y\<rfloor> + 1" by linarith
    with r have "1 / 2 < y - of_int \<lfloor>y\<rfloor>" by simp
    with False eq show ?thesis by (simp add: round_half_even_def Let_def)
  qed
qed

lemma round_half_even_of_int: "round_half_even (of_int m) = m"
  by (rule round_half_even_eqI) simp

lemma round_half_even_tie:
  "round_half_even (of_int n + 1 / 2) = (if even n then n else n + 1)"
proof -
  have "\<lfloor>rat_of_int n + 1 / 2\<rfloor> = n" by (simp add: floor_eq_iff)
  then show ?thesis by (simp add: round_half_even_def Let_def)
qed


lemma ulp_exponent_eqI:
  assumes "pow2 e \<le> \<bar>x\<bar>" "\<bar>x\<bar> < pow2 (e + 1)"
  shows "ulp_exponent x = max e (- 1022) - 52"
  using binade_eqI [OF assms] by (simp add: ulp_exponent_def)

lemma to_double_near:
  "\<bar>to_double x - x\<bar> \<le> pow2 (ulp_exponent x) / 2"
proof (cases "x = 0")
  case True
  then show ?thesis using pow2_pos [of "ulp_exponent 0"] by (simp add: to_double_def)
next
  case False
  define u where "u = pow2 (ulp_exponent x)"
  have u: "0 < u" by (simp add: u_def pow2_pos)
  have "\<bar>of_int (round_half_even (x / u)) - x / u\<bar> \<le> 1 / 2"
    by (rule round_half_even_near)
  then have "\<bar>of_int (round_half_even (x / u)) - x / u\<bar> * u \<le> 1 / 2 * u"
    using u by (intro mult_right_mono) simp_all
  moreover have "(of_int (round_half_even (x / u)) - x / u) * u =
      of_int (round_half_even (x / u)) * u - x"
    using u by (simp add: left_diff_distrib)
  then have "\<bar>of_int (round_half_even (x / u)) - x / u\<bar> * u =
      \<bar>of_int (round_half_even (x / u)) * u - x\<bar>"
    using u by (metis abs_mult abs_of_pos)
  ultimately show ?thesis
    using False by (simp add: to_double_def u_def)
qed

lemma to_double_eqI:
  assumes "pow2 e \<le> \<bar>x\<bar>" "\<bar>x\<bar> < pow2 (e + 1)"
    and "\<bar>x / pow2 (max e (- 1022) - 52) - of_int r\<bar> < 1 / 2"
  shows "to_double x = of_int r * pow2 (max e (- 1022) - 52)"
proof -
  from assms(1) pow2_pos [of e] have "x \<noteq> 0" by auto
  moreover have "ulp_exponent x = max e (- 1022) - 52"
    using assms(1,2) by (rule ulp_exponent_eqI)
  moreover have "round_half_even (x / pow2 (max e (- 1022) - 52)) = r"
    using assms(3) by (rule round_half_even_eqI)
  ultimately show ?thesis by (simp add: to_double_def)
qed

lemma to_double_tie:
  assumes "pow2 e \<le> \<bar>x\<bar>" "\<bar>x\<bar> < pow2 (e + 1)"
    and "x / pow2 (max e (- 1022) - 52) = of_int n + 1 / 2"
  shows "to_double x = of_int (if even n then n else n + 1) * pow2 (max e (- 1022) - 52)"
proof -
  from assms(1) pow2_pos [of e] have "x \<noteq> 0" by auto
  moreover have "ulp_exponent x = max e (- 1022) - 52"
    using assms(1,2) by (rule ulp_exponent_eqI)
  ultimately show ?thesis
    by (simp only: to_double_def assms(3) round_half_even_tie if_False)
qed

lemma is_double_I:
  assumes "pow2 e \<le> \<bar>x\<bar>" "\<bar>x\<bar> < pow2 (e + 1)" "e < 1024"
    and "x = of_int m * pow2 (max e (- 1022) - 52)"
  shows "is_double x"
proof -
  have "x / pow2 (max e (- 1022) - 52) = of_int m"
    using pow2_pos [of "max e (- 1022) - 52"] by (subst assms(4)) simp
  then have "\<bar>x / pow2 (max e (- 1022) - 52) - of_int m\<bar> < 1 / 2" by simp
  with assms(1,2) have "to_double x = of_int m * pow2 (max e (- 1022) - 52)"
    by (rule to_double_eqI)
  with assms(4) have "to_double x = x" by simp
  moreover from assms(3) have "pow2 (e + 1) \<le> pow2 1024" by (intro pow2_mono) simp
  with assms(2) have "\<bar>x\<bar> < pow2 1024" by simp
  ultimately show ?thesis by (simp add: is_double_def)
qed

lemma is_double_0: "is_double 0"
  using pow2_pos [of 1024] by (simp add: is_double_def to_double_def)

lemma double_one_tenth: "is_double (3602879701896397 / 36028797018963968)"
  by (rule is_double_I [where e = "- 4" and m = 7205759403792794]) (simp_all add: pow2_def)

lemma double_five_point_one: "is_double (2871044762448691 / 562949953421312)"
  by (rule is_double_I [where e = 2 and m = 5742089524897382]) (simp_all add: pow2_def)

lemma double_half: "is_double (1 / 2)"
  by (rule is_double_I [where e = "- 1" and m = 4503599627370496]) (simp_all add: pow2_def)

lemma double_two: "is_double 2"
  by (rule is_double_I [where e = 1 and m = 4503599627370496]) (simp_all add: pow2_def)

lemma double_minus_five_point_one:
  "double_minus (2871044762448691 / 562949953421312) (3602879701896397 / 36028797018963968) = 5"
proof -
  have "to_double (2871044762448691 / 562949953421312 - 3602879701896397 / 36028797018963968) =
      of_int 5629499534213120 * pow2 (max 2 (- 1022) - 52)"
    by (rule to_double_eqI) (simp_all add: pow2_def)
  then show ?thesis by (simp add: double_minus_def pow2_def)
qed

lemma double_minus_two_half: "double_minus 2 (1 / 2) = 3 / 2"
proof -
  have "to_double (2 - 1 / 2) = of_int 6755399441055744 * pow2 (max 0 (- 1022) - 52)"
    by (rule to_double_eqI) (simp_all add: pow2_def)
  then show ?thesis by (simp add: double_minus_def pow2_def)
qed

lemma double_minus_tie: "double_minus 9007199254740994 1 = 9007199254740992"
proof -
  have "to_double (9007199254740994 - 1) =
      of_int (if even (4503599627370496::int) then 4503599627370496 else 4503599627370496 + 1)
        * pow2 (max 53 (- 1022) - 52)"
    by (rule to_double_tie) (simp_all add: pow2_def)
  then show ?thesis by (simp add: double_minus_def pow2_def)
qed


text \<open>
  Rounding a second time changes nothing, and the difference of two doubles that are
  not negative is a finite double again: the subtraction never leaves the model.
\<close>

lemma binade_less:
  assumes "y \<noteq> 0" "\<bar>y\<bar> < pow2 k"
  shows "binade y < k"
proof (rule ccontr)
  assume "\<not> binade y < k"
  then have "pow2 k \<le> pow2 (binade y)" by (intro pow2_mono) simp
  with binade_bounds [OF assms(1)] assms(2) show False by simp
qed

lemma round_half_even_abs_le:
  assumes "\<bar>y\<bar> \<le> of_int N"
  shows "\<bar>round_half_even y\<bar> \<le> N"
proof -
  have "\<bar>rat_of_int (round_half_even y) - y\<bar> \<le> 1 / 2" by (rule round_half_even_near)
  with assms have "\<bar>rat_of_int (round_half_even y)\<bar> < of_int N + 1" by linarith
  then have "rat_of_int \<bar>round_half_even y\<bar> < of_int (N + 1)" by simp
  then have "\<bar>round_half_even y\<bar> < N + 1" by (simp only: of_int_less_iff)
  then show ?thesis by simp
qed

lemma to_double_exact:
  assumes "x = of_int m * pow2 (ulp_exponent x)"
  shows "to_double x = x"
proof (cases "x = 0")
  case True
  then show ?thesis by (simp add: to_double_def)
next
  case False
  have "x / pow2 (ulp_exponent x) = of_int m"
    using pow2_pos [of "ulp_exponent x"] by (subst assms) simp
  then have "round_half_even (x / pow2 (ulp_exponent x)) = m"
    by (simp add: round_half_even_of_int)
  with False assms show ?thesis by (simp add: to_double_def)
qed

lemma pow2_nonneg_int: "0 \<le> k \<Longrightarrow> pow2 k = of_int (2 ^ nat k)"
  by (simp add: pow2_def)

lemma coarser_multiple:
  assumes "q' \<le> q"
  shows "\<exists>m. of_int r * pow2 q = of_int m * pow2 q'"
proof -
  have "pow2 q = pow2 (q - q') * pow2 q'"
    using pow2_add [of "q - q'" q'] by simp
  also have "pow2 (q - q') = of_int (2 ^ nat (q - q'))"
    using assms by (intro pow2_nonneg_int) simp
  finally have "of_int r * pow2 q = of_int (r * 2 ^ nat (q - q')) * pow2 q'"
    by simp
  then show ?thesis by blast
qed


lemma pow2_53: "pow2 53 = 9007199254740992"
  by (simp add: pow2_def)

lemma ulp_exponent_lower: "- 1074 \<le> ulp_exponent x" "binade x - 52 \<le> ulp_exponent x"
  by (simp_all add: ulp_exponent_def)

lemma to_double_significand:
  assumes "x \<noteq> 0"
  shows "\<bar>round_half_even (x / pow2 (ulp_exponent x))\<bar> \<le> 9007199254740992"
proof -
  define q where "q = ulp_exponent x"
  have "\<bar>x\<bar> < pow2 (binade x + 1)" using binade_bounds [OF assms] by simp
  also have "pow2 (binade x + 1) \<le> pow2 (q + 53)"
    using ulp_exponent_lower(2) [of x] by (intro pow2_mono) (simp add: q_def)
  also have "pow2 (q + 53) = 9007199254740992 * pow2 q"
    by (simp add: pow2_add pow2_53)
  finally have "\<bar>x\<bar> / pow2 q < 9007199254740992"
    using pow2_pos [of q] by (simp add: pos_divide_less_eq)
  then have "\<bar>x / pow2 q\<bar> \<le> rat_of_int 9007199254740992"
    using pow2_pos [of q] by (simp add: abs_divide)
  then show ?thesis unfolding q_def by (rule round_half_even_abs_le)
qed

lemma to_double_idem: "to_double (to_double x) = to_double x"
proof (cases "x = 0")
  case True
  then show ?thesis by (simp add: to_double_def)
next
  case False
  define q where "q = ulp_exponent x"
  define r where "r = round_half_even (x / pow2 q)"
  define y where "y = to_double x"
  have y: "y = of_int r * pow2 q"
    using False by (simp add: y_def to_double_def r_def q_def)
  have r_le: "\<bar>r\<bar> \<le> 9007199254740992"
    using to_double_significand [OF False] by (simp add: r_def q_def)
  have q_lo: "- 1074 \<le> q" by (simp add: q_def ulp_exponent_lower)
  have abs_y: "\<bar>y\<bar> = of_int \<bar>r\<bar> * pow2 q"
    using pow2_pos [of q] by (simp add: y abs_mult)
  have "to_double y = y"
  proof (cases "r = 0")
    case True
    then show ?thesis by (simp add: y to_double_def)
  next
    case r0: False
    then have ynz: "y \<noteq> 0" using pow2_pos [of q] by (simp add: y)
    show ?thesis
    proof (cases "\<bar>r\<bar> = 9007199254740992")
      case True
      then have ay: "\<bar>y\<bar> = pow2 (q + 53)"
        by (simp add: abs_y pow2_add pow2_53)
      have "\<bar>y\<bar> < pow2 (q + 53 + 1)"
        unfolding ay by (intro pow2_strict_mono) simp
      with ay have "binade y = q + 53" by (intro binade_eqI) simp_all
      then have u: "ulp_exponent y = q + 1"
        using q_lo by (simp add: ulp_exponent_def)
      from True have "r = 9007199254740992 \<or> r = - 9007199254740992" by linarith
      then have "r = 2 * (r div 2)" by auto
      then have "rat_of_int r = of_int (r div 2) * 2" by (metis of_int_mult of_int_numeral mult.commute)
      moreover have "pow2 1 = 2" by (simp add: pow2_def)
      then have "pow2 (q + 1) = 2 * pow2 q" by (simp add: pow2_add [of q 1])
      ultimately have yy: "y = of_int (r div 2) * pow2 (q + 1)"
        by (simp add: y)
      have "y = of_int (r div 2) * pow2 (ulp_exponent y)"
        unfolding u by (rule yy)
      then show ?thesis by (rule to_double_exact)
    next
      case False
      with r_le have "\<bar>r\<bar> < 9007199254740992" by simp
      then have "rat_of_int \<bar>r\<bar> < 9007199254740992" by (metis of_int_less_iff of_int_numeral)
      then have "\<bar>y\<bar> < 9007199254740992 * pow2 q"
        using pow2_pos [of q] by (simp add: abs_y)
      then have "\<bar>y\<bar> < pow2 (q + 53)" by (simp add: pow2_add pow2_53)
      with ynz have "binade y < q + 53" by (rule binade_less)
      with q_lo have "ulp_exponent y \<le> q" by (simp add: ulp_exponent_def)
      then obtain m where mm: "of_int r * pow2 q = of_int m * pow2 (ulp_exponent y)"
        using coarser_multiple by blast
      have "y = of_int m * pow2 (ulp_exponent y)" by (rule trans [OF y mm])
      then show ?thesis by (rule to_double_exact)
    qed
  qed
  then show ?thesis by (simp add: y_def)
qed


lemma pow2_1024: "pow2 1024 = 9007199254740992 * pow2 971"
  using pow2_add [of 53 971] by (simp add: pow2_53)

lemma pow2_1023: "pow2 1023 = 4503599627370496 * pow2 971"
proof -
  have "pow2 52 = 4503599627370496" by (simp add: pow2_def)
  then show ?thesis using pow2_add [of 52 971] by simp
qed

lemma is_double_le_max:
  assumes "is_double a"
  shows "\<bar>a\<bar> \<le> 9007199254740991 * pow2 971"
proof (cases "a = 0")
  case True
  then show ?thesis using pow2_pos [of 971] by simp
next
  case False
  from assms have fixed: "to_double a = a" and fin: "\<bar>a\<bar> < pow2 1024"
    by (simp_all add: is_double_def)
  from False fin have e: "binade a < 1024" by (rule binade_less)
  show ?thesis
  proof (cases "binade a = 1023")
    case True
    then have u: "ulp_exponent a = 971" by (simp add: ulp_exponent_def)
    define r where "r = round_half_even (a / pow2 971)"
    from fixed False have a: "a = of_int r * pow2 971"
      by (simp add: to_double_def u r_def)
    then have abs_a: "\<bar>a\<bar> = of_int \<bar>r\<bar> * pow2 971"
      using pow2_pos [of 971] by (simp add: abs_mult)
    with fin have "rat_of_int \<bar>r\<bar> * pow2 971 < 9007199254740992 * pow2 971"
      by (simp add: pow2_1024)
    then have "rat_of_int \<bar>r\<bar> < 9007199254740992"
      using pow2_pos [of 971] by simp
    then have "\<bar>r\<bar> < 9007199254740992" by (metis of_int_less_iff of_int_numeral)
    then have "\<bar>r\<bar> \<le> 9007199254740991" by simp
    then have "rat_of_int \<bar>r\<bar> \<le> 9007199254740991" by (metis of_int_le_iff of_int_numeral)
    then show ?thesis
      unfolding abs_a using pow2_pos [of 971] by (intro mult_right_mono) simp_all
  next
    case False
    with e have "binade a + 1 \<le> 1023" by simp
    then have "pow2 (binade a + 1) \<le> pow2 1023" by (rule pow2_mono)
    moreover have "\<bar>a\<bar> < pow2 (binade a + 1)"
      using binade_bounds [OF \<open>a \<noteq> 0\<close>] by simp
    ultimately have "\<bar>a\<bar> < 4503599627370496 * pow2 971" by (simp add: pow2_1023)
    moreover have "4503599627370496 * pow2 971 \<le> 9007199254740991 * pow2 971"
      using pow2_pos [of 971] by (intro mult_right_mono) simp_all
    ultimately show ?thesis by simp
  qed
qed

lemma double_minus_is_double:
  assumes "is_double a" "is_double b" "0 \<le> a" "0 \<le> b"
  shows "is_double (double_minus a b)"
proof -
  define x where "x = a - b"
  from is_double_le_max [OF assms(1)] is_double_le_max [OF assms(2)] assms(3,4) have x_le: "\<bar>x\<bar> \<le> 9007199254740991 * pow2 971"
    unfolding x_def by linarith
  have fin: "\<bar>to_double x\<bar> < pow2 1024"
  proof (cases "x = 0")
    case True
    then show ?thesis using pow2_pos [of 1024] by (simp add: to_double_def)
  next
    case False
    define q where "q = ulp_exponent x"
    define r where "r = round_half_even (x / pow2 q)"
    have y: "to_double x = of_int r * pow2 q"
      using False by (simp add: to_double_def r_def q_def)
    have abs_y: "\<bar>to_double x\<bar> = of_int \<bar>r\<bar> * pow2 q"
      using pow2_pos [of q] by (simp add: y abs_mult)
    have "\<bar>x\<bar> < pow2 1024"
      using x_le pow2_pos [of 971] by (simp add: pow2_1024)
    with False have e: "binade x < 1024" by (rule binade_less)
    show ?thesis
    proof (cases "binade x = 1023")
      case True
      then have q: "q = 971" by (simp add: q_def ulp_exponent_def)
      have "\<bar>x / pow2 971\<bar> \<le> rat_of_int 9007199254740991"
        using x_le pow2_pos [of 971] by (simp add: abs_divide pos_divide_le_eq)
      then have "\<bar>r\<bar> \<le> 9007199254740991"
        unfolding r_def q by (rule round_half_even_abs_le)
      then have "rat_of_int \<bar>r\<bar> \<le> 9007199254740991" by (metis of_int_le_iff of_int_numeral)
      then have "rat_of_int \<bar>r\<bar> * pow2 971 \<le> 9007199254740991 * pow2 971"
        using pow2_pos [of 971] by (intro mult_right_mono) simp_all
      also have "\<dots> < 9007199254740992 * pow2 971"
        using pow2_pos [of 971] by simp
      finally show ?thesis by (simp add: abs_y q pow2_1024)
    next
      case False
      with e have "q + 53 \<le> 1023" by (simp add: q_def ulp_exponent_def)
      then have "pow2 (q + 53) \<le> pow2 1023" by (rule pow2_mono)
      then have "9007199254740992 * pow2 q \<le> pow2 1023"
        by (simp add: pow2_add pow2_53)
      moreover have "\<bar>r\<bar> \<le> 9007199254740992"
        using to_double_significand [OF \<open>x \<noteq> 0\<close>] by (simp add: r_def q_def)
      then have "rat_of_int \<bar>r\<bar> \<le> 9007199254740992" by (metis of_int_le_iff of_int_numeral)
      then have "rat_of_int \<bar>r\<bar> * pow2 q \<le> 9007199254740992 * pow2 q"
        using pow2_pos [of q] by (intro mult_right_mono) simp_all
      moreover have "pow2 1023 < pow2 1024" by (intro pow2_strict_mono) simp
      ultimately show ?thesis by (simp add: abs_y)
    qed
  qed
  show ?thesis
    unfolding is_double_def double_minus_def x_def [symmetric]
    using fin by (simp add: to_double_idem)
qed

section \<open>Properties of the stream form\<close>

lemma accumulatedText_onmessage:
  "accumulatedText (onmessage ev c) = accumulatedText c @ snd ev"
  by (simp add: onmessage_def Let_def showLoading_def displayElapsedTime_def)

lemma accumulatedText_receive:
  "accumulatedText (receive evs c) = accumulatedText c @ concat (map snd evs)"
  by (induction evs arbitrary: c) (simp_all add: accumulatedText_onmessage)

lemma accumulatedText_stream_submit: "accumulatedText (stream_submit now c) = []"
  by (simp add: stream_submit_def Let_def)

lemma timeStart_stream_submit: "timeStart (stream_submit now c) = now"
  by (simp add: stream_submit_def Let_def)

lemma elapsedTimeText_stream_submit: "elapsedTimeText (stream_submit now c) = Blank"
  by (simp add: stream_submit_def Let_def cleanElapsedTime_def)

lemma elapsedTimeText_onmessage:
  "elapsedTimeText (onmessage ev c) =
     (if accumulatedText c = [] then TimeTaken (Math_floor (double_minus (fst ev) (timeStart c)))
      else elapsedTimeText c)"
  by (simp add: onmessage_def Let_def showLoading_def displayElapsedTime_def)

lemma elapsedTimeText_receive_started:
  "accumulatedText c \<noteq> [] \<Longrightarrow> elapsedTimeText (receive evs c) = elapsedTimeText c"
  by (induction evs arbitrary: c)
    (simp_all add: accumulatedText_onmessage elapsedTimeText_onmessage)

text \<open>
  C3, corrected. After the messages of a session the buffer is the concatenation of
  their payloads as received, in order; nothing is decoded.
\<close>

theorem C3_buffer_is_raw_concatenation:
  "accumulatedText (receive evs (stream_submit now c)) = concat (map snd evs)"
  by (simp add: accumulatedText_receive accumulatedText_stream_submit)

text \<open>
  C3. The buffer is not the concatenation of the JSON-decoded payloads: after the one
  frame of the fragment \<open>a\<close> the buffer holds the three code units of the quoted
  payload, while the decoded payload is the single \<open>a\<close>.
\<close>

theorem C3_buffer_not_decoded:
  \<open>accumulatedText (receive [(1, JSON_stringify (lit ''a''))] (stream_submit 0 page_load)) =
     lit ''"a"''
   \<and> spec_decoded_buffer [JSON_stringify (lit ''a'')] = Some (lit ''a'')
   \<and> Some (accumulatedText
        (receive [(1, JSON_stringify (lit ''a''))] (stream_submit 0 page_load))) \<noteq>
     spec_decoded_buffer [JSON_stringify (lit ''a'')]\<close>
  by (simp add: accumulatedText_onmessage accumulatedText_stream_submit json_simps
      spec_decoded_buffer_def JSON_parse_def)

text \<open>
  C7. The recorded value is not the difference of the two times: with the submit at
  0.5 ms and the first frame at 2 ms, both doubles, the difference is 1.5, exactly also
  as a double, and the value recorded is 1.
\<close>

theorem C7_elapsed_not_difference:
  \<open>is_double (1 / 2) \<and> is_double 2
   \<and> elapsedTimeText
        (receive [(2, JSON_stringify (lit ''a''))] (stream_submit (1 / 2) page_load)) =
       TimeTaken 1
   \<and> double_minus 2 (1 / 2) = 3 / 2
   \<and> rat_of_int 1 \<noteq> double_minus 2 (1 / 2)\<close>
  by (simp add: double_half double_two double_minus_two_half elapsedTimeText_onmessage
      accumulatedText_stream_submit timeStart_stream_submit Math_floor_def floor_eq_iff)

text \<open>
  C7, corrected. For times as \<open>performance.now()\<close> gives them, finite doubles that are
  not negative: a message records the elapsed time exactly when the buffer is empty on
  its arrival, and leaves the recorded value alone otherwise. In a session whose first
  message has a non-empty payload, the value recorded is \<open>Math.floor\<close> of the double
  difference of the time of that first message and the time of the submit, whatever
  messages follow: the exact difference rounded to the nearest double (within half a
  unit in the last place, a tie going to the even significand), itself a finite
  double, and then rounded down to whole milliseconds. With no message nothing is recorded. From 0.1 to 5.1, as
  doubles, the value recorded is 5, although the exact difference of the two doubles
  is below 5.
\<close>

theorem C7_elapsed_time:
  assumes "is_double t0" "0 \<le> t0" "is_double t" "0 \<le> t" "d \<noteq> []"
  shows "elapsedTimeText (onmessage (t, d') (c'\<lparr>timeStart := t0\<rparr>)) =
           (if accumulatedText c' = [] then TimeTaken (Math_floor (double_minus t t0))
            else elapsedTimeText c')
         \<and> elapsedTimeText (receive ((t, d) # evs) (stream_submit t0 c)) =
           TimeTaken (Math_floor (double_minus t t0))
         \<and> elapsedTimeText (receive [] (stream_submit t0 c)) = Blank
         \<and> is_double (double_minus t t0)
         \<and> Math_floor (double_minus t t0) = \<lfloor>double_minus t t0\<rfloor>
         \<and> \<bar>double_minus t t0 - (t - t0)\<bar> \<le> pow2 (ulp_exponent (t - t0)) / 2
         \<and> Math_floor (double_minus (2871044762448691 / 562949953421312)
               (3602879701896397 / 36028797018963968)) = 5
         \<and> \<lfloor>2871044762448691 / 562949953421312
               - 3602879701896397 / 36028797018963968 :: rat\<rfloor> = 4
         \<and> Math_floor (double_minus 2 (1 / 2)) = 1
         \<and> double_minus 9007199254740994 1 = 9007199254740992"
proof -
  let ?c1 = "onmessage (t, d) (stream_submit t0 c)"
  have step: "elapsedTimeText (onmessage (t, d') (c'\<lparr>timeStart := t0\<rparr>)) =
      (if accumulatedText c' = [] then TimeTaken (Math_floor (double_minus t t0))
       else elapsedTimeText c')"
    by (simp add: elapsedTimeText_onmessage)
  have first: "elapsedTimeText ?c1 = TimeTaken (Math_floor (double_minus t t0))"
    by (simp add: elapsedTimeText_onmessage accumulatedText_stream_submit timeStart_stream_submit)
  have "accumulatedText ?c1 \<noteq> []"
    using assms(5) by (simp add: accumulatedText_onmessage)
  then have "elapsedTimeText (receive evs ?c1) = elapsedTimeText ?c1"
    by (rule elapsedTimeText_receive_started)
  with first have session:
    "elapsedTimeText (receive ((t, d) # evs) (stream_submit t0 c)) =
      TimeTaken (Math_floor (double_minus t t0))"
    by simp
  have none: "elapsedTimeText (receive [] (stream_submit t0 c)) = Blank"
    by (simp add: elapsedTimeText_stream_submit)
  have dbl: "is_double (double_minus t t0)"
    using assms(3) assms(1) assms(4) assms(2) by (rule double_minus_is_double)
  have fl: "Math_floor (double_minus t t0) = \<lfloor>double_minus t t0\<rfloor>"
    by (simp add: Math_floor_def)
  have near: "\<bar>double_minus t t0 - (t - t0)\<bar> \<le> pow2 (ulp_exponent (t - t0)) / 2"
    unfolding double_minus_def by (rule to_double_near)
  have e1: "Math_floor (double_minus (2871044762448691 / 562949953421312)
      (3602879701896397 / 36028797018963968)) = 5"
    by (simp add: double_minus_five_point_one Math_floor_def)
  have e2: "\<lfloor>2871044762448691 / 562949953421312
      - 3602879701896397 / 36028797018963968 :: rat\<rfloor> = 4"
    by (simp add: floor_eq_iff)
  have e3: "Math_floor (double_minus 2 (1 / 2)) = 1"
    by (simp add: double_minus_two_half Math_floor_def floor_eq_iff)
  show ?thesis
    by (intro conjI step session none dbl fl near e1 e2 e3 double_minus_tie)
qed

theorem C7_elapsed_time_witness:
  \<open>is_double (3602879701896397 / 36028797018963968)
   \<and> is_double (2871044762448691 / 562949953421312)
   \<and> lit ''"Hel"'' \<noteq> []
   \<and> elapsedTimeText
        (receive [(2871044762448691 / 562949953421312, lit ''"Hel"''), (9, lit ''"lo"'')]
          (stream_submit (3602879701896397 / 36028797018963968) page_load)) = TimeTaken 5\<close>
proof -
  have d: \<open>lit ''"Hel"'' \<noteq> []\<close> by (simp add: lit_def)
  have \<open>elapsedTimeText
      (receive [(2871044762448691 / 562949953421312, lit ''"Hel"''), (9, lit ''"lo"'')]
        (stream_submit (3602879701896397 / 36028797018963968) page_load)) =
      TimeTaken (Math_floor (double_minus (2871044762448691 / 562949953421312)
        (3602879701896397 / 36028797018963968)))\<close>
    using C7_elapsed_time [OF double_one_tenth _ double_five_point_one _ d,
        where evs = \<open>[(9, lit ''"lo"'')]\<close> and c = page_load]
    by simp
  then show ?thesis
    using d by (simp add: double_one_tenth double_five_point_one double_minus_five_point_one
        Math_floor_def)
qed

section \<open>Properties of the reference endpoint\<close>

text \<open>
  C9. When the producer's call fails, the reference endpoint answers with the fixed
  diagnostic sentence as body. The status is 200 on failure and on success alike.
\<close>

theorem C9_reference_failure_body:
  "sent (fst (normal_handler (Inl e))) =
     Some (Text (lit ''An error occurred while generating the summary.''))
   \<and> statusCode (fst (normal_handler (Inl e))) = 200
   \<and> statusCode (fst (normal_handler (Inr response))) = 200
   \<and> statusCode (fst (normal_handler (Inl e))) = statusCode (fst (normal_handler (Inr response)))"
  by (simp add: normal_handler_def send_def new_response_def)

text \<open>
  C10. When the producer's call succeeds with a response that has no \<open>content\<close>
  key, the body is the fixed sentence \<open>No answer was generated.\<close>, with status 200
  and nothing logged as an error.
\<close>

theorem C10_reference_fallback_body:
  "sent (fst (normal_handler (Inr WithoutContent))) = Some (Text (lit ''No answer was generated.''))
   \<and> statusCode (fst (normal_handler (Inr WithoutContent))) = 200
   \<and> snd (normal_handler (Inr WithoutContent)) = []"
  by (simp add: normal_handler_def send_def new_response_def answer_def)

end
